theory Spec2Isabelle
  imports Main "HOL-Library.Multiset" "HOL-Library.Stream"
begin

section \<open>Python lists, exceptions and the random source\<close>

text \<open>
  The selectors of \<^verbatim>\<open>SelectionAlgorithm.py\<close> work on a Python list of integers
  (\<^verbatim>\<open>List[int]\<close>), indexed by Python integers. Python integers are unbounded, so
  both the elements and the indices are \<^typ>\<open>int\<close>. The only exceptions the selectors can
  raise are the \<^verbatim>\<open>IndexError\<close> of an out-of-range subscript and the \<^verbatim>\<open>ValueError\<close>
  that \<^verbatim>\<open>random.randint(a, b)\<close> raises when \<^verbatim>\<open>a > b\<close>. The interpreter's recursion
  limit is not part of the model: recursion is mathematical recursion.
\<close>

datatype error = IndexError | ValueError

text \<open>
  The global random source is a stream of raw draws. \<^verbatim>\<open>random.randint(a, b)\<close> consumes
  one draw and returns a value of the closed range; every value of the range is
  returned for some draw, and every sequence of results \<^verbatim>\<open>randint\<close> could give is
  the result of some stream.
\<close>

type_synonym rng = "nat stream"

definition randint :: "int \<Rightarrow> int \<Rightarrow> rng \<Rightarrow> error + (int \<times> rng)" where
  "randint a b g =
     (if b < a then Inl ValueError
      else Inr (a + int (shd g mod nat (b - a + 1)), stl g))"

text \<open>Subscripting: a negative index counts from the end, anything else out of range raises.\<close>

definition getitem :: "int list \<Rightarrow> int \<Rightarrow> error + int" where
  "getitem xs i =
     (let n = int (length xs); j = (if i < 0 then i + n else i)
      in if 0 \<le> j \<and> j < n then Inr (xs ! nat j) else Inl IndexError)"

definition setitem :: "int list \<Rightarrow> int \<Rightarrow> int \<Rightarrow> error + int list" where
  "setitem xs i v =
     (let n = int (length xs); j = (if i < 0 then i + n else i)
      in if 0 \<le> j \<and> j < n then Inr (xs[nat j := v]) else Inl IndexError)"

text \<open>
  \<^verbatim>\<open>xs[a], xs[b] = xs[b], xs[a]\<close>: the right-hand side is read first (\<^verbatim>\<open>xs[b]\<close>, then
  \<^verbatim>\<open>xs[a]\<close>), then the two targets are assigned from left to right.
\<close>

definition swap_items :: "int list \<Rightarrow> int \<Rightarrow> int \<Rightarrow> error + int list" where
  "swap_items xs a b =
     (case getitem xs b of Inl e \<Rightarrow> Inl e
      | Inr vb \<Rightarrow>
          (case getitem xs a of Inl e \<Rightarrow> Inl e
           | Inr va \<Rightarrow>
               (case setitem xs a vb of Inl e \<Rightarrow> Inl e
                | Inr xs1 \<Rightarrow> setitem xs1 b va)))"

section \<open>The partitioner\<close>

text \<open>
  The loop \<^verbatim>\<open>for i in range(left, right)\<close> of \<^verbatim>\<open>partition\<close>, from the counter \<open>i\<close> on,
  with the running \<^verbatim>\<open>store_idx\<close>.
\<close>

function partition_loop :: "int list \<Rightarrow> int \<Rightarrow> int \<Rightarrow> int \<Rightarrow> int \<Rightarrow> error + (int list \<times> int)" where
  "partition_loop arr pivot_value i right store_idx =
     (if i < right then
        (case getitem arr i of Inl e \<Rightarrow> Inl e
         | Inr x \<Rightarrow>
             if x < pivot_value then
               (case swap_items arr i store_idx of Inl e \<Rightarrow> Inl e
                | Inr arr1 \<Rightarrow> partition_loop arr1 pivot_value (i + 1) right (store_idx + 1))
             else partition_loop arr pivot_value (i + 1) right store_idx)
      else Inr (arr, store_idx))"
  by pat_completeness auto
termination
  by (relation "measure (\<lambda>(arr, pivot_value, i, right, store_idx). nat (right - i))") auto

declare partition_loop.simps [simp del]

definition partition :: "int list \<Rightarrow> int \<Rightarrow> int \<Rightarrow> int \<Rightarrow> error + (int list \<times> int)" where
  "partition arr left right pivot_idx =
     (case getitem arr pivot_idx of Inl e \<Rightarrow> Inl e
      | Inr pivot_value \<Rightarrow>
          (case swap_items arr pivot_idx right of Inl e \<Rightarrow> Inl e
           | Inr arr1 \<Rightarrow>
               (case partition_loop arr1 pivot_value left right left of Inl e \<Rightarrow> Inl e
                | Inr (arr2, store_idx) \<Rightarrow>
                    (case swap_items arr2 store_idx right of Inl e \<Rightarrow> Inl e
                     | Inr arr3 \<Rightarrow> Inr (arr3, store_idx)))))"

text \<open>
  Whatever the list holds, the store index only moves right, by at most one per scanned
  position: the final pivot position lies in the range. The recursion of the selectors
  terminates by this fact.
\<close>

lemma partition_loop_store_bounds:
  "partition_loop arr pv i right s = Inr (arr', s') \<Longrightarrow> i \<le> right \<Longrightarrow>
     s \<le> s' \<and> s' \<le> s + (right - i)"
proof (induction arr pv i right s rule: partition_loop.induct)
  case (1 arr pv i right s)
  show ?case
  proof (cases "i < right")
    case False
    with "1.prems" show ?thesis by (simp add: partition_loop.simps)
  next
    case True
    from "1.prems"(1) True obtain x where x: "getitem arr i = Inr x"
      by (subst (asm) partition_loop.simps) (auto split: sum.splits)
    show ?thesis
    proof (cases "x < pv")
      case less: True
      from "1.prems"(1) True x less obtain arr1 where
        a1: "swap_items arr i s = Inr arr1"
        and r: "partition_loop arr1 pv (i + 1) right (s + 1) = Inr (arr', s')"
        by (subst (asm) partition_loop.simps) (auto split: sum.splits)
      from "1.IH"(1)[OF True x less a1 r] True show ?thesis by simp
    next
      case False
      from "1.prems"(1) True x False have
        r: "partition_loop arr pv (i + 1) right s = Inr (arr', s')"
        by (subst (asm) partition_loop.simps) (auto split: sum.splits)
      from "1.IH"(2)[OF True x False r] True show ?thesis by simp
    qed
  qed
qed

lemma partition_result_bounds:
  "partition arr left right pivot_idx = Inr (arr', p) \<Longrightarrow> left \<le> right \<Longrightarrow>
     left \<le> p \<and> p \<le> right"
  unfolding partition_def
  by (auto split: sum.splits dest!: partition_loop_store_bounds)

section \<open>The randomized selector\<close>

text \<open>
  \<^verbatim>\<open>quickselect\<close> is a closure over \<^verbatim>\<open>arr_copy\<close>: the model passes the working list
  and the random source in and returns them with the value.
\<close>

function quickselect :: "rng \<Rightarrow> int list \<Rightarrow> int \<Rightarrow> int \<Rightarrow> int \<Rightarrow> error + (int \<times> int list \<times> rng)" where
  "quickselect g arr left right k_smallest =
     (if left = right then
        (case getitem arr left of Inl e \<Rightarrow> Inl e | Inr v \<Rightarrow> Inr (v, arr, g))
      else
        (case randint left right g of Inl e \<Rightarrow> Inl e
         | Inr (pivot_idx0, g1) \<Rightarrow>
             (case partition arr left right pivot_idx0 of Inl e \<Rightarrow> Inl e
              | Inr (arr1, pivot_idx) \<Rightarrow>
                  if k_smallest = pivot_idx then
                    (case getitem arr1 k_smallest of Inl e \<Rightarrow> Inl e
                     | Inr v \<Rightarrow> Inr (v, arr1, g1))
                  else if k_smallest < pivot_idx then
                    quickselect g1 arr1 left (pivot_idx - 1) k_smallest
                  else
                    quickselect g1 arr1 (pivot_idx + 1) right k_smallest)))"
  by pat_completeness auto
termination
  by (relation "measure (\<lambda>(g, arr, left, right, k). nat (right - left + 1))")
     (auto simp: randint_def split: if_splits dest!: partition_result_bounds)

declare quickselect.simps [simp del]

text \<open>\<^verbatim>\<open>arr.copy()\<close> gives a list of the same values; the closures work on that copy.\<close>

definition randomized_select :: "rng \<Rightarrow> int list \<Rightarrow> int \<Rightarrow> error + (int \<times> rng)" where
  "randomized_select g arr k =
     (let arr_copy = arr
      in case quickselect g arr_copy 0 (int (length arr_copy) - 1) k of
           Inl e \<Rightarrow> Inl e
         | Inr (v, arr', g') \<Rightarrow> Inr (v, g'))"

section \<open>The deterministic selector\<close>

text \<open>
  \<^verbatim>\<open>partition_mom\<close> is a second copy of the partitioner, word for word; its loop is the
  same loop.
\<close>

definition partition_mom :: "int list \<Rightarrow> int \<Rightarrow> int \<Rightarrow> int \<Rightarrow> error + (int list \<times> int)" where
  "partition_mom arr left right pivot_idx =
     (case getitem arr pivot_idx of Inl e \<Rightarrow> Inl e
      | Inr pivot_value \<Rightarrow>
          (case swap_items arr pivot_idx right of Inl e \<Rightarrow> Inl e
           | Inr arr1 \<Rightarrow>
               (case partition_loop arr1 pivot_value left right left of Inl e \<Rightarrow> Inl e
                | Inr (arr2, store_idx) \<Rightarrow>
                    (case swap_items arr2 store_idx right of Inl e \<Rightarrow> Inl e
                     | Inr arr3 \<Rightarrow> Inr (arr3, store_idx)))))"

text \<open>
  A slice \<^verbatim>\<open>xs[start:stop]\<close> never raises: a negative bound counts from the end and
  both bounds are clamped to the list.
\<close>

definition slice_bound :: "nat \<Rightarrow> int \<Rightarrow> nat" where
  "slice_bound n i =
     (if i < 0 then (if i + int n < 0 then 0 else nat (i + int n))
      else if int n < i then n else nat i)"

definition getslice :: "int list \<Rightarrow> int \<Rightarrow> int \<Rightarrow> int list" where
  "getslice xs start stop =
     (let n = length xs; a = slice_bound n start; b = slice_bound n stop
      in take (b - a) (drop a xs))"

text \<open>The loop \<^verbatim>\<open>for i in range(left, right + 1): arr_copy[i] = segment[i - left]\<close>.\<close>

function write_back :: "int list \<Rightarrow> int list \<Rightarrow> int \<Rightarrow> int \<Rightarrow> int \<Rightarrow> error + int list" where
  "write_back arr segment left i right =
     (if i < right + 1 then
        (case getitem segment (i - left) of Inl e \<Rightarrow> Inl e
         | Inr v \<Rightarrow>
             (case setitem arr i v of Inl e \<Rightarrow> Inl e
              | Inr arr1 \<Rightarrow> write_back arr1 segment left (i + 1) right))
      else Inr arr)"
  by pat_completeness auto
termination
  by (relation "measure (\<lambda>(arr, segment, left, i, right). nat (right + 1 - i))") auto

declare write_back.simps [simp del]

definition find_median :: "int list \<Rightarrow> int \<Rightarrow> int \<Rightarrow> error + (int list \<times> int)" where
  "find_median arr left right =
     (let segment = sort (getslice arr left (right + 1));
          median_idx = left + (right - left) div 2
      in case write_back arr segment left left right of Inl e \<Rightarrow> Inl e
         | Inr arr1 \<Rightarrow> Inr (arr1, median_idx))"

text \<open>The loop \<^verbatim>\<open>for i in range(left, right + 1, 5)\<close> that collects the group medians.\<close>

function medians_loop :: "int list \<Rightarrow> int \<Rightarrow> int \<Rightarrow> int list \<Rightarrow> error + (int list \<times> int list)" where
  "medians_loop arr i right medians =
     (if i < right + 1 then
        (let group_right = min (i + 4) right
         in case find_median arr i group_right of Inl e \<Rightarrow> Inl e
            | Inr (arr1, median_idx) \<Rightarrow>
                medians_loop arr1 (i + 5) right (medians @ [median_idx]))
      else Inr (arr, medians))"
  by pat_completeness auto
termination
  by (relation "measure (\<lambda>(arr, i, right, medians). nat (right + 1 - i))") auto

declare medians_loop.simps [simp del]

text \<open>The comprehension \<^verbatim>\<open>[arr_copy[idx] for idx in medians]\<close>.\<close>

fun median_values :: "int list \<Rightarrow> int list \<Rightarrow> error + int list" where
  "median_values arr [] = Inr []"
| "median_values arr (idx # medians) =
     (case getitem arr idx of Inl e \<Rightarrow> Inl e
      | Inr v \<Rightarrow>
          (case median_values arr medians of Inl e \<Rightarrow> Inl e
           | Inr vs \<Rightarrow> Inr (v # vs)))"

text \<open>
  The scan for the pivot value: \<^verbatim>\<open>mom_idx = -1\<close>, then the first \<open>i\<close> of
  \<^verbatim>\<open>range(left, right + 1)\<close> with \<^verbatim>\<open>arr_copy[i] == mom_value\<close>.
\<close>

function find_mom_idx :: "int list \<Rightarrow> int \<Rightarrow> int \<Rightarrow> int \<Rightarrow> error + int" where
  "find_mom_idx arr mom_value i right =
     (if i < right + 1 then
        (case getitem arr i of Inl e \<Rightarrow> Inl e
         | Inr x \<Rightarrow>
             if x = mom_value then Inr i
             else find_mom_idx arr mom_value (i + 1) right)
      else Inr (- 1))"
  by pat_completeness auto
termination
  by (relation "measure (\<lambda>(arr, mom_value, i, right). nat (right + 1 - i))") auto

declare find_mom_idx.simps [simp del]

text \<open>
  The choice of the pivot index from the collected medians (the \<^verbatim>\<open>if num_medians == 1\<close>
  block of \<^verbatim>\<open>select\<close>). The inner selection is the randomized selector, on the global
  random source.
\<close>

definition median_of_medians :: "rng \<Rightarrow> int list \<Rightarrow> int \<Rightarrow> int \<Rightarrow> int list \<Rightarrow> error + (int \<times> rng)" where
  "median_of_medians g arr left right medians =
     (let num_medians = int (length medians)
      in if num_medians = 1 then
           (case getitem medians 0 of Inl e \<Rightarrow> Inl e | Inr mom_idx \<Rightarrow> Inr (mom_idx, g))
         else
           (case median_values arr medians of Inl e \<Rightarrow> Inl e
            | Inr vs \<Rightarrow>
                (case randomized_select g vs (num_medians div 2) of Inl e \<Rightarrow> Inl e
                 | Inr (mom_value, g1) \<Rightarrow>
                     (case find_mom_idx arr mom_value left right of Inl e \<Rightarrow> Inl e
                      | Inr mom_idx \<Rightarrow> Inr (mom_idx, g1)))))"

lemma partition_mom_result_bounds:
  "partition_mom arr left right pivot_idx = Inr (arr', p) \<Longrightarrow> left \<le> right \<Longrightarrow>
     left \<le> p \<and> p \<le> right"
  unfolding partition_mom_def
  by (auto split: sum.splits dest!: partition_loop_store_bounds)

lemma medians_loop_empty_range:
  "right < i \<Longrightarrow> medians_loop arr i right medians = Inr (arr, medians)"
  by (simp add: medians_loop.simps)

lemma median_of_medians_no_medians:
  "median_of_medians g arr left right [] = Inl ValueError"
  by (simp add: median_of_medians_def randomized_select_def quickselect.simps randint_def)

text \<open>
  On an empty range no median is collected and the inner selection fails, so a range
  that reaches the partition step is not empty.
\<close>

lemma select_range_nonempty:
  assumes "medians_loop arr left right [] = Inr (arr1, medians)"
    and "median_of_medians g arr1 left right medians = Inr r"
  shows "left \<le> right"
proof (rule ccontr)
  assume "\<not> left \<le> right"
  then have "medians_loop arr left right [] = Inr (arr, [])"
    by (simp add: medians_loop_empty_range)
  with assms show False
    by (simp add: median_of_medians_no_medians)
qed

text \<open>
  \<^verbatim>\<open>select\<close> is a closure over \<^verbatim>\<open>arr_copy\<close>, like \<^verbatim>\<open>quickselect\<close>. Its local
  \<^verbatim>\<open>n = right - left + 1\<close> is never read and has no counterpart here.
\<close>

function select :: "rng \<Rightarrow> int list \<Rightarrow> int \<Rightarrow> int \<Rightarrow> int \<Rightarrow> error + (int \<times> int list \<times> rng)" where
  "select g arr left right k_smallest =
     (if left = right then
        (case getitem arr left of Inl e \<Rightarrow> Inl e | Inr v \<Rightarrow> Inr (v, arr, g))
      else
        (case medians_loop arr left right [] of Inl e \<Rightarrow> Inl e
         | Inr (arr1, medians) \<Rightarrow>
             (case median_of_medians g arr1 left right medians of Inl e \<Rightarrow> Inl e
              | Inr (mom_idx, g1) \<Rightarrow>
                  (case partition_mom arr1 left right mom_idx of Inl e \<Rightarrow> Inl e
                   | Inr (arr2, pivot_idx) \<Rightarrow>
                       if k_smallest = pivot_idx then
                         (case getitem arr2 k_smallest of Inl e \<Rightarrow> Inl e
                          | Inr v \<Rightarrow> Inr (v, arr2, g1))
                       else if k_smallest < pivot_idx then
                         select g1 arr2 left (pivot_idx - 1) k_smallest
                       else
                         select g1 arr2 (pivot_idx + 1) right k_smallest))))"
  by pat_completeness auto
termination
proof (relation "measure (\<lambda>(g, arr, left, right, k). nat (right - left + 1))", goal_cases)
  case 1
  show ?case by simp
next
  case (2 g arr left right k x2 arr1 medians x2a mom_idx g1 x2b arr2 pivot_idx)
  then have "left \<le> right"
    by (auto dest: select_range_nonempty)
  with 2 partition_mom_result_bounds[of arr1 left right mom_idx arr2 pivot_idx]
  show ?case by auto
next
  case (3 g arr left right k x2 arr1 medians x2a mom_idx g1 x2b arr2 pivot_idx)
  then have "left \<le> right"
    by (auto dest: select_range_nonempty)
  with 3 partition_mom_result_bounds[of arr1 left right mom_idx arr2 pivot_idx]
  show ?case by auto
qed

declare select.simps [simp del]

definition deterministic_select :: "rng \<Rightarrow> int list \<Rightarrow> int \<Rightarrow> error + (int \<times> rng)" where
  "deterministic_select g arr k =
     (let arr_copy = arr
      in case select g arr_copy 0 (int (length arr_copy) - 1) k of
           Inl e \<Rightarrow> Inl e
         | Inr (v, arr', g') \<Rightarrow> Inr (v, g'))"

section \<open>The caller's list and the private copy\<close>

text \<open>
  A Python list is an object and a selector receives a reference to the caller's. The
  store is the list of the list objects alive, the address of an object being its
  position; \<^verbatim>\<open>arr.copy()\<close> allocates a new object holding the values of the old one.
  The closures of a selector refer to \<^verbatim>\<open>arr_copy\<close> and to nothing else of the store, so
  the effect of the helper on the store is its effect on that one object. When the
  helper raises, the copy is unreachable; the store keeps it as it was allocated. The
  short-lived lists inside \<^verbatim>\<open>select\<close> (\<^verbatim>\<open>segment\<close>, \<^verbatim>\<open>medians\<close>, \<^verbatim>\<open>median_values\<close> and
  the copy the inner selection makes of it) are fresh objects nothing else refers to;
  they stay values.
\<close>

type_synonym store = "int list list"

definition list_copy :: "store \<Rightarrow> nat \<Rightarrow> nat \<times> store" where
  "list_copy s a = (length s, s @ [s ! a])"

definition randomized_select_call :: "rng \<Rightarrow> store \<Rightarrow> nat \<Rightarrow> int \<Rightarrow> (error + (int \<times> rng)) \<times> store" where
  "randomized_select_call g s arr k =
     (case list_copy s arr of
        (arr_copy, s1) \<Rightarrow>
          (case quickselect g (s1 ! arr_copy) 0 (int (length (s1 ! arr_copy)) - 1) k of
             Inl e \<Rightarrow> (Inl e, s1)
           | Inr (v, arr', g') \<Rightarrow> (Inr (v, g'), s1[arr_copy := arr'])))"

definition deterministic_select_call :: "rng \<Rightarrow> store \<Rightarrow> nat \<Rightarrow> int \<Rightarrow> (error + (int \<times> rng)) \<times> store" where
  "deterministic_select_call g s arr k =
     (case list_copy s arr of
        (arr_copy, s1) \<Rightarrow>
          (case select g (s1 ! arr_copy) 0 (int (length (s1 ! arr_copy)) - 1) k of
             Inl e \<Rightarrow> (Inl e, s1)
           | Inr (v, arr', g') \<Rightarrow> (Inr (v, g'), s1[arr_copy := arr'])))"

section \<open>Specification notions\<close>

text \<open>
  The rank a selector effectively answers in the range \<open>[left, right]\<close>: a rank below the
  range acts as its first position, a rank above it as its last.
\<close>

definition clamped_rank :: "int \<Rightarrow> int \<Rightarrow> int \<Rightarrow> nat" where
  "clamped_rank left right k =
     nat (if k < left then 0 else if right < k then right - left else k - left)"

text \<open>
  What a selection helper owes on an in-bounds range: the element of that rank in the
  sorted range, with the working list permuted inside the range only; a failure is the
  \<^verbatim>\<open>ValueError\<close> of the random draw and needs a rank outside the range.
\<close>

definition select_post :: "int list \<Rightarrow> int \<Rightarrow> int \<Rightarrow> int \<Rightarrow> error + (int \<times> int list \<times> rng) \<Rightarrow> bool" where
  "select_post arr left right k r =
     (case r of
        Inl e \<Rightarrow> e = ValueError \<and> (k < left \<or> right < k)
      | Inr (v, arr', g') \<Rightarrow>
          v = sort (getslice arr left (right + 1)) ! clamped_rank left right k
          \<and> length arr' = length arr \<and> mset arr' = mset arr
          \<and> (\<forall>j. int j < left \<or> right < int j \<longrightarrow> arr' ! j = arr ! j))"

section \<open>Subscripts and swaps inside the list\<close>

lemma getitem_in_range:
  "0 \<le> i \<Longrightarrow> i < int (length xs) \<Longrightarrow> getitem xs i = Inr (xs ! nat i)"
  by (simp add: getitem_def)

lemma setitem_in_range:
  "0 \<le> i \<Longrightarrow> i < int (length xs) \<Longrightarrow> setitem xs i v = Inr (xs[nat i := v])"
  by (simp add: setitem_def)

lemma swap_items_in_range:
  "0 \<le> a \<Longrightarrow> a < int (length xs) \<Longrightarrow> 0 \<le> b \<Longrightarrow> b < int (length xs) \<Longrightarrow>
     swap_items xs a b = Inr (xs[nat a := xs ! nat b, nat b := xs ! nat a])"
  by (simp add: swap_items_def getitem_in_range setitem_in_range)

lemma mset_swap_nat:
  "a < length xs \<Longrightarrow> b < length xs \<Longrightarrow> mset (xs[a := xs ! b, b := xs ! a]) = mset xs"
  by (simp add: mset_swap)

lemma partition_loop_correct:
  assumes "0 \<le> left" "left \<le> s" "s \<le> i" "i \<le> right" "right < int (length arr)"
    and "\<forall>j. left \<le> int j \<and> int j < s \<longrightarrow> arr ! j < pv"
    and "\<forall>j. s \<le> int j \<and> int j < i \<longrightarrow> pv \<le> arr ! j"
  shows "\<exists>arr' s'. partition_loop arr pv i right s = Inr (arr', s')
           \<and> s \<le> s' \<and> s' \<le> right
           \<and> length arr' = length arr \<and> mset arr' = mset arr
           \<and> (\<forall>j. int j < left \<or> right \<le> int j \<longrightarrow> arr' ! j = arr ! j)
           \<and> (\<forall>j. left \<le> int j \<and> int j < s' \<longrightarrow> arr' ! j < pv)
           \<and> (\<forall>j. s' \<le> int j \<and> int j < right \<longrightarrow> pv \<le> arr' ! j)"
  using assms
proof (induction arr pv i right s rule: partition_loop.induct)
  case (1 arr pv i right s)
  show ?case
  proof (cases "i < right")
    case False
    with "1.prems" have "i = right" by simp
    with "1.prems" show ?thesis
      by (subst partition_loop.simps) simp
  next
    case True
    have gi: "getitem arr i = Inr (arr ! nat i)"
      using "1.prems" True by (simp add: getitem_in_range)
    show ?thesis
    proof (cases "arr ! nat i < pv")
      case less: True
      define arr1 where "arr1 = arr[nat i := arr ! nat s, nat s := arr ! nat i]"
      have sw: "swap_items arr i s = Inr arr1"
        unfolding arr1_def using "1.prems" True by (simp add: swap_items_in_range)
      have len1: "length arr1 = length arr" by (simp add: arr1_def)
      have ms1: "mset arr1 = mset arr"
        unfolding arr1_def using "1.prems" True by (intro mset_swap_nat) auto
      have inv1: "\<forall>j. left \<le> int j \<and> int j < s + 1 \<longrightarrow> arr1 ! j < pv"
      proof (intro allI impI)
        fix j assume j: "left \<le> int j \<and> int j < s + 1"
        show "arr1 ! j < pv"
        proof (cases "int j = s")
          case True
          then have "j = nat s" by simp
          with less "1.prems" \<open>i < right\<close> show ?thesis by (simp add: arr1_def)
        next
          case False
          with j have "int j < s" by simp
          with "1.prems" j have "j \<noteq> nat s" "j \<noteq> nat i" "arr ! j < pv" by auto
          then show ?thesis by (simp add: arr1_def)
        qed
      qed
      have inv2: "\<forall>j. s + 1 \<le> int j \<and> int j < i + 1 \<longrightarrow> pv \<le> arr1 ! j"
      proof (intro allI impI)
        fix j assume j: "s + 1 \<le> int j \<and> int j < i + 1"
        show "pv \<le> arr1 ! j"
        proof (cases "int j = i")
          case True
          then have ji: "j = nat i" by simp
          from j True have "s < i" by simp
          with "1.prems" have "pv \<le> arr ! nat s" "nat s \<noteq> nat i" by auto
          with ji "1.prems" \<open>i < right\<close> show ?thesis by (simp add: arr1_def)
        next
          case False
          with j have "int j < i" by simp
          with "1.prems" j have "j \<noteq> nat s" "j \<noteq> nat i" "pv \<le> arr ! j" by auto
          then show ?thesis by (simp add: arr1_def)
        qed
      qed
      have "\<exists>arr' s'. partition_loop arr1 pv (i + 1) right (s + 1) = Inr (arr', s')
           \<and> s + 1 \<le> s' \<and> s' \<le> right
           \<and> length arr' = length arr1 \<and> mset arr' = mset arr1
           \<and> (\<forall>j. int j < left \<or> right \<le> int j \<longrightarrow> arr' ! j = arr1 ! j)
           \<and> (\<forall>j. left \<le> int j \<and> int j < s' \<longrightarrow> arr' ! j < pv)
           \<and> (\<forall>j. s' \<le> int j \<and> int j < right \<longrightarrow> pv \<le> arr' ! j)"
        using "1.prems" True len1 inv1 inv2
        by (intro "1.IH"(1)[OF True gi less sw]) auto
      then obtain arr' s' where r: "partition_loop arr1 pv (i + 1) right (s + 1) = Inr (arr', s')"
           "s + 1 \<le> s'" "s' \<le> right" "length arr' = length arr1" "mset arr' = mset arr1"
           "\<forall>j. int j < left \<or> right \<le> int j \<longrightarrow> arr' ! j = arr1 ! j"
           "\<forall>j. left \<le> int j \<and> int j < s' \<longrightarrow> arr' ! j < pv"
           "\<forall>j. s' \<le> int j \<and> int j < right \<longrightarrow> pv \<le> arr' ! j"
        by blast
      have fr1: "\<forall>j. int j < left \<or> right \<le> int j \<longrightarrow> arr1 ! j = arr ! j"
        using "1.prems" True by (auto simp: arr1_def)
      have "partition_loop arr pv i right s = Inr (arr', s')"
        using True gi less sw r(1) by (subst partition_loop.simps) simp
      with r len1 ms1 fr1 show ?thesis by auto
    next
      case ge: False
      have inv2: "\<forall>j. s \<le> int j \<and> int j < i + 1 \<longrightarrow> pv \<le> arr ! j"
      proof (intro allI impI)
        fix j assume j: "s \<le> int j \<and> int j < i + 1"
        show "pv \<le> arr ! j"
        proof (cases "int j = i")
          case True
          then have "j = nat i" by simp
          with ge show ?thesis by simp
        next
          case False
          with j "1.prems" show ?thesis by simp
        qed
      qed
      have "\<exists>arr' s'. partition_loop arr pv (i + 1) right s = Inr (arr', s')
           \<and> s \<le> s' \<and> s' \<le> right
           \<and> length arr' = length arr \<and> mset arr' = mset arr
           \<and> (\<forall>j. int j < left \<or> right \<le> int j \<longrightarrow> arr' ! j = arr ! j)
           \<and> (\<forall>j. left \<le> int j \<and> int j < s' \<longrightarrow> arr' ! j < pv)
           \<and> (\<forall>j. s' \<le> int j \<and> int j < right \<longrightarrow> pv \<le> arr' ! j)"
        using "1.prems" True inv2
        by (intro "1.IH"(2)[OF True gi ge]) auto
      moreover have "partition_loop arr pv i right s = partition_loop arr pv (i + 1) right s"
        using True gi ge by (subst partition_loop.simps) simp
      ultimately show ?thesis by simp
    qed
  qed
qed


lemma partition_correct:
  assumes "0 \<le> left" "left \<le> right" "right < int (length arr)"
    and "left \<le> pivot_idx" "pivot_idx \<le> right"
  shows "\<exists>arr' p. partition arr left right pivot_idx = Inr (arr', p)
           \<and> left \<le> p \<and> p \<le> right
           \<and> length arr' = length arr \<and> mset arr' = mset arr
           \<and> (\<forall>j. int j < left \<or> right < int j \<longrightarrow> arr' ! j = arr ! j)
           \<and> arr' ! nat p = arr ! nat pivot_idx
           \<and> (\<forall>j. left \<le> int j \<and> int j < p \<longrightarrow> arr' ! j < arr ! nat pivot_idx)
           \<and> (\<forall>j. p < int j \<and> int j \<le> right \<longrightarrow> arr ! nat pivot_idx \<le> arr' ! j)"
proof -
  define pv where "pv = arr ! nat pivot_idx"
  define arr1 where "arr1 = arr[nat pivot_idx := arr ! nat right, nat right := arr ! nat pivot_idx]"
  have gp: "getitem arr pivot_idx = Inr pv"
    using assms by (simp add: getitem_in_range pv_def)
  have sw1: "swap_items arr pivot_idx right = Inr arr1"
    using assms by (simp add: swap_items_in_range arr1_def)
  have len1: "length arr1 = length arr" by (simp add: arr1_def)
  have ms1: "mset arr1 = mset arr"
    unfolding arr1_def using assms by (intro mset_swap_nat) auto
  have fr1: "\<forall>j. int j < left \<or> right < int j \<longrightarrow> arr1 ! j = arr ! j"
    using assms by (auto simp: arr1_def)
  have r1: "arr1 ! nat right = pv"
    using assms by (simp add: arr1_def pv_def)
  have "\<exists>arr2 s'. partition_loop arr1 pv left right left = Inr (arr2, s')
           \<and> left \<le> s' \<and> s' \<le> right
           \<and> length arr2 = length arr1 \<and> mset arr2 = mset arr1
           \<and> (\<forall>j. int j < left \<or> right \<le> int j \<longrightarrow> arr2 ! j = arr1 ! j)
           \<and> (\<forall>j. left \<le> int j \<and> int j < s' \<longrightarrow> arr2 ! j < pv)
           \<and> (\<forall>j. s' \<le> int j \<and> int j < right \<longrightarrow> pv \<le> arr2 ! j)"
    using assms len1 by (intro partition_loop_correct) auto
  then obtain arr2 p where l: "partition_loop arr1 pv left right left = Inr (arr2, p)"
      "left \<le> p" "p \<le> right" "length arr2 = length arr1" "mset arr2 = mset arr1"
      "\<forall>j. int j < left \<or> right \<le> int j \<longrightarrow> arr2 ! j = arr1 ! j"
      "\<forall>j. left \<le> int j \<and> int j < p \<longrightarrow> arr2 ! j < pv"
      "\<forall>j. p \<le> int j \<and> int j < right \<longrightarrow> pv \<le> arr2 ! j"
    by blast
  have nn: "0 \<le> p" "0 \<le> right"
    using assms(1,2) l(2) by linarith+
  define arr3 where "arr3 = arr2[nat p := arr2 ! nat right, nat right := arr2 ! nat p]"
  have sw2: "swap_items arr2 p right = Inr arr3"
    using assms l len1 by (simp add: swap_items_in_range arr3_def)
  have r2: "arr2 ! nat right = pv"
    using l(6) r1 assms by simp
  have len3: "length arr3 = length arr" by (simp add: arr3_def l len1)
  have ms3: "mset arr3 = mset arr"
  proof -
    have "mset arr3 = mset arr2"
      unfolding arr3_def using assms l len1 by (intro mset_swap_nat) auto
    with l ms1 show ?thesis by simp
  qed
  have fr3: "\<forall>j. int j < left \<or> right < int j \<longrightarrow> arr3 ! j = arr ! j"
  proof (intro allI impI)
    fix j assume j: "int j < left \<or> right < int j"
    with assms(1,2) l(2,3) have "int j \<noteq> p" "int j \<noteq> right" by linarith+
    with nn have "j \<noteq> nat p" "j \<noteq> nat right" by auto
    then have "arr3 ! j = arr2 ! j" by (simp add: arr3_def)
    with j l(6) fr1 show "arr3 ! j = arr ! j" by auto
  qed
  have at_p: "arr3 ! nat p = pv"
    using assms l len1 r2 by (cases "p = right") (auto simp: arr3_def)
  have lo: "\<forall>j. left \<le> int j \<and> int j < p \<longrightarrow> arr3 ! j < pv"
  proof (intro allI impI)
    fix j assume j: "left \<le> int j \<and> int j < p"
    with assms(1,2) l(2,3) have "int j \<noteq> p" "int j \<noteq> right" by linarith+
    with nn have "j \<noteq> nat p" "j \<noteq> nat right" by auto
    then have "arr3 ! j = arr2 ! j" by (simp add: arr3_def)
    with j l(7) show "arr3 ! j < pv" by simp
  qed
  have hi: "\<forall>j. p < int j \<and> int j \<le> right \<longrightarrow> pv \<le> arr3 ! j"
  proof (intro allI impI)
    fix j assume j: "p < int j \<and> int j \<le> right"
    show "pv \<le> arr3 ! j"
    proof (cases "int j = right")
      case True
      then have jr: "j = nat right" by simp
      from j True have "p < right" by simp
      with l(8) assms l(2) have "pv \<le> arr2 ! nat p" by simp
      with jr assms l len1 show ?thesis by (simp add: arr3_def)
    next
      case False
      with j have "int j \<noteq> p" "int j \<noteq> right" "int j < right" by linarith+
      with nn have "j \<noteq> nat p" "j \<noteq> nat right" "int j < right" by auto
      then have "arr3 ! j = arr2 ! j" by (simp add: arr3_def)
      with j l(8) \<open>int j < right\<close> show ?thesis by simp
    qed
  qed
  have "partition arr left right pivot_idx = Inr (arr3, p)"
    by (simp add: partition_def gp sw1 l(1) sw2)
  with l(2,3) len3 ms3 fr3 at_p lo hi show ?thesis
    unfolding pv_def by blast
qed

lemma partition_mom_eq: "partition_mom = partition"
  by (intro ext) (simp add: partition_mom_def partition_def)

section \<open>Slices and sorting\<close>

lemma getslice_in_range:
  "0 \<le> a \<Longrightarrow> a \<le> b \<Longrightarrow> b \<le> int (length xs) \<Longrightarrow>
     getslice xs a b = take (nat (b - a)) (drop (nat a) xs)"
  by (simp add: getslice_def slice_bound_def Let_def nat_diff_distrib)

lemma getslice_whole: "getslice xs 0 (int (length xs)) = xs"
  by (simp add: getslice_in_range)

lemma length_getslice:
  "0 \<le> a \<Longrightarrow> a \<le> b \<Longrightarrow> b \<le> int (length xs) \<Longrightarrow> length (getslice xs a b) = nat (b - a)"
  by (simp add: getslice_in_range)

lemma nth_getslice:
  "0 \<le> a \<Longrightarrow> a \<le> b \<Longrightarrow> b \<le> int (length xs) \<Longrightarrow> j < nat (b - a) \<Longrightarrow>
     getslice xs a b ! j = xs ! (nat a + j)"
  by (simp add: getslice_in_range)

lemma getslice_split:
  assumes "0 \<le> a" "a \<le> p" "p < b" "b \<le> int (length xs)"
  shows "getslice xs a b = getslice xs a p @ [xs ! nat p] @ getslice xs (p + 1) b"
proof (rule nth_equalityI)
  show "length (getslice xs a b) = length (getslice xs a p @ [xs ! nat p] @ getslice xs (p + 1) b)"
    using assms by (simp add: length_getslice)
next
  fix j assume "j < length (getslice xs a b)"
  with assms have j: "j < nat (b - a)" by (simp add: length_getslice)
  have la: "length (getslice xs a p) = nat (p - a)"
    using assms by (simp add: length_getslice)
  consider "j < nat (p - a)" | "j = nat (p - a)" | "nat (p - a) < j" by linarith
  then show "getslice xs a b ! j = (getslice xs a p @ [xs ! nat p] @ getslice xs (p + 1) b) ! j"
  proof cases
    case 1
    with assms j show ?thesis
      by (simp add: nth_append la nth_getslice)
  next
    case 2
    have "nat a + nat (p - a) = nat p" using assms by linarith
    with 2 assms j show ?thesis
      by (simp add: nth_append la nth_getslice)
  next
    case 3
    then have "j - nat (p - a) - 1 < nat (b - (p + 1))" using j assms by linarith
    moreover have "nat (p + 1) + (j - nat (p - a) - 1) = nat a + j" using 3 assms by linarith
    ultimately have "getslice xs (p + 1) b ! (j - nat (p - a) - 1) = xs ! (nat a + j)"
      using assms by (simp add: nth_getslice)
    moreover have "getslice xs a b ! j = xs ! (nat a + j)"
      using assms j by (simp add: nth_getslice)
    ultimately show ?thesis using 3
      by (simp add: nth_append la nth_Cons')
  qed
qed

lemma set_getslice:
  assumes "0 \<le> a" "a \<le> b" "b \<le> int (length xs)"
  shows "set (getslice xs a b) = {xs ! j | j. a \<le> int j \<and> int j < b}"
proof (intro set_eqI iffI)
  fix x assume "x \<in> set (getslice xs a b)"
  then obtain i where i: "i < nat (b - a)" "getslice xs a b ! i = x"
    using assms by (auto simp: in_set_conv_nth length_getslice)
  with assms have "x = xs ! (nat a + i)" by (simp add: nth_getslice)
  moreover have "a \<le> int (nat a + i)" "int (nat a + i) < b" using i assms by linarith+
  ultimately show "x \<in> {xs ! j | j. a \<le> int j \<and> int j < b}" by blast
next
  fix x assume "x \<in> {xs ! j | j. a \<le> int j \<and> int j < b}"
  then obtain j where j: "x = xs ! j" "a \<le> int j" "int j < b" by blast
  then have "j - nat a < nat (b - a)" "nat a + (j - nat a) = j" using assms by linarith+
  then have "getslice xs a b ! (j - nat a) = x" "j - nat a < length (getslice xs a b)"
    using assms j by (simp_all add: nth_getslice length_getslice)
  then show "x \<in> set (getslice xs a b)" by (metis nth_mem)
qed

lemma list_split3:
  assumes "0 \<le> a" "a \<le> b" "b \<le> int (length xs)"
  shows "xs = take (nat a) xs @ getslice xs a b @ drop (nat b) xs"
proof -
  have "drop (nat a) xs = take (nat (b - a)) (drop (nat a) xs) @ drop (nat (b - a)) (drop (nat a) xs)"
    by (rule append_take_drop_id[symmetric])
  moreover have "nat (b - a) + nat a = nat b" using assms by linarith
  ultimately have "drop (nat a) xs = getslice xs a b @ drop (nat b) xs"
    using assms by (simp add: getslice_in_range)
  then show ?thesis by (metis append_take_drop_id)
qed

lemma mset_getslice_frame:
  assumes "0 \<le> a" "a \<le> b" "b \<le> int (length xs)"
    and "length xs' = length xs" "mset xs' = mset xs"
    and "\<forall>j. int j < a \<or> b \<le> int j \<longrightarrow> xs' ! j = xs ! j"
  shows "mset (getslice xs' a b) = mset (getslice xs a b)"
proof -
  have t: "take (nat a) xs' = take (nat a) xs"
    using assms by (intro nth_equalityI) auto
  have d: "drop (nat b) xs' = drop (nat b) xs"
    using assms by (intro nth_equalityI) auto
  have "mset xs' = mset (take (nat a) xs') + mset (getslice xs' a b) + mset (drop (nat b) xs')"
    using list_split3[of a b xs'] assms
    by (metis mset_append add.assoc)
  moreover have "mset xs = mset (take (nat a) xs) + mset (getslice xs a b) + mset (drop (nat b) xs)"
    using list_split3[of a b xs] assms
    by (metis mset_append add.assoc)
  ultimately show ?thesis using t d assms(5) by simp
qed

lemma sort_cong_mset: "mset xs = mset ys \<Longrightarrow> sort xs = sort ys"
  by (rule properties_for_sort) simp_all

lemma sort_around_pivot:
  fixes pv :: int
  assumes "\<forall>x\<in>set L. x \<le> pv" "\<forall>x\<in>set R. pv \<le> x"
  shows "sort (L @ [pv] @ R) = sort L @ [pv] @ sort R"
proof (rule properties_for_sort)
  show "mset (sort L @ [pv] @ sort R) = mset (L @ [pv] @ R)" by simp
  show "sorted (sort L @ [pv] @ sort R)"
    using assms by (auto simp: sorted_append intro: order_trans)
qed

section \<open>Correctness of the randomized helper\<close>

lemma select_post_base:
  assumes "0 \<le> left" "left < int (length arr)"
  shows "select_post arr left left k (Inr (arr ! nat left, arr, g))"
proof -
  have "getslice arr left (left + 1) = [arr ! nat left]"
    using assms by (simp add: getslice_in_range take_Suc_conv_app_nth hd_drop_conv_nth take_Suc)
  then show ?thesis
    by (simp add: select_post_def clamped_rank_def)
qed

text \<open>One narrowing step: the state after a partition with final pivot position \<open>p\<close>.\<close>

lemma select_post_step:
  assumes rng: "0 \<le> left" "left \<le> right" "right < int (length arr)"
    and p: "left \<le> p" "p \<le> right"
    and len: "length arr1 = length arr" and ms: "mset arr1 = mset arr"
    and fr: "\<forall>j. int j < left \<or> right < int j \<longrightarrow> arr1 ! j = arr ! j"
    and lo: "\<forall>j. left \<le> int j \<and> int j < p \<longrightarrow> arr1 ! j < arr1 ! nat p"
    and hi: "\<forall>j. p < int j \<and> int j \<le> right \<longrightarrow> arr1 ! nat p \<le> arr1 ! j"
  shows "select_post arr left right p (Inr (arr1 ! nat p, arr1, g1))"
    and "k < p \<Longrightarrow> left < p \<Longrightarrow> select_post arr1 left (p - 1) k r \<Longrightarrow> select_post arr left right k r"
    and "k < p \<Longrightarrow> p = left \<Longrightarrow> select_post arr left right k (Inl ValueError)"
    and "p < k \<Longrightarrow> p < right \<Longrightarrow> select_post arr1 (p + 1) right k r \<Longrightarrow> select_post arr left right k r"
    and "p < k \<Longrightarrow> p = right \<Longrightarrow> select_post arr left right k (Inl ValueError)"
proof -
  define L where "L = getslice arr1 left p"
  define R where "R = getslice arr1 (p + 1) (right + 1)"
  define pv where "pv = arr1 ! nat p"
  have sp: "getslice arr1 left (right + 1) = L @ [pv] @ R"
    unfolding L_def R_def pv_def using rng p len by (intro getslice_split) auto
  have lenL: "length L = nat (p - left)"
    unfolding L_def using rng p len by (simp add: length_getslice)
  have lenR: "length R = nat (right - p)"
    unfolding R_def using rng p len by (simp add: length_getslice)
  have setL: "\<forall>x\<in>set L. x \<le> pv"
    unfolding L_def pv_def using rng p len lo by (auto simp: set_getslice less_imp_le)
  have setR: "\<forall>x\<in>set R. pv \<le> x"
    unfolding R_def pv_def using rng p len hi by (auto simp: set_getslice)
  have "mset (getslice arr1 left (right + 1)) = mset (getslice arr left (right + 1))"
    using rng len ms fr by (intro mset_getslice_frame) auto
  then have "sort (getslice arr left (right + 1)) = sort (getslice arr1 left (right + 1))"
    by (intro sort_cong_mset) simp
  also have "\<dots> = sort L @ [pv] @ sort R"
    unfolding sp using setL setR by (rule sort_around_pivot)
  finally have srt: "sort (getslice arr left (right + 1)) = sort L @ [pv] @ sort R" .
  show "select_post arr left right p (Inr (arr1 ! nat p, arr1, g1))"
    using p len ms fr lenL
    by (simp add: select_post_def srt clamped_rank_def nth_append pv_def)
  show "select_post arr left right k (Inl ValueError)" if "k < p" "p = left"
    using that by (simp add: select_post_def)
  show "select_post arr left right k (Inl ValueError)" if "p < k" "p = right"
    using that by (simp add: select_post_def)
  show "select_post arr left right k r" if k: "k < p" "left < p" and r: "select_post arr1 left (p - 1) k r"
  proof (cases r)
    case (Inl e)
    with r k show ?thesis by (auto simp: select_post_def)
  next
    case (Inr t)
    obtain v arr' g' where t: "t = (v, arr', g')" by (cases t)
    from r Inr t have v: "v = sort L ! clamped_rank left (p - 1) k"
      and r': "length arr' = length arr1" "mset arr' = mset arr1"
        "\<forall>j. int j < left \<or> p - 1 < int j \<longrightarrow> arr' ! j = arr1 ! j"
      by (simp_all add: select_post_def L_def)
    have "clamped_rank left (p - 1) k = clamped_rank left right k"
      using k p by (simp add: clamped_rank_def)
    moreover have "clamped_rank left (p - 1) k < length L"
      using k p lenL by (auto simp: clamped_rank_def)
    ultimately have "v = sort (getslice arr left (right + 1)) ! clamped_rank left right k"
      using v by (simp add: srt nth_append)
    moreover have "\<forall>j. int j < left \<or> right < int j \<longrightarrow> arr' ! j = arr ! j"
      using r'(3) fr p by auto
    ultimately show ?thesis
      using Inr t r' len ms by (simp add: select_post_def)
  qed
  show "select_post arr left right k r" if k: "p < k" "p < right" and r: "select_post arr1 (p + 1) right k r"
  proof (cases r)
    case (Inl e)
    with r k show ?thesis by (auto simp: select_post_def)
  next
    case (Inr t)
    obtain v arr' g' where t: "t = (v, arr', g')" by (cases t)
    from r Inr t have v: "v = sort R ! clamped_rank (p + 1) right k"
      and r': "length arr' = length arr1" "mset arr' = mset arr1"
        "\<forall>j. int j < p + 1 \<or> right < int j \<longrightarrow> arr' ! j = arr1 ! j"
      by (simp_all add: select_post_def R_def)
    have "clamped_rank left right k = length L + 1 + clamped_rank (p + 1) right k"
      using k p lenL by (auto simp: clamped_rank_def)
    then have "v = sort (getslice arr left (right + 1)) ! clamped_rank left right k"
      using v by (simp add: srt nth_append)
    moreover have "\<forall>j. int j < left \<or> right < int j \<longrightarrow> arr' ! j = arr ! j"
      using r'(3) fr p by auto
    ultimately show ?thesis
      using Inr t r' len ms by (simp add: select_post_def)
  qed
qed

lemma randint_in_range:
  assumes "left \<le> right"
  shows "\<exists>i g1. randint left right g = Inr (i, g1) \<and> left \<le> i \<and> i \<le> right \<and> g1 = stl g"
proof -
  have "0 < nat (right - left + 1)" using assms by simp
  then have "shd g mod nat (right - left + 1) < nat (right - left + 1)"
    by (rule mod_less_divisor)
  then have "int (shd g mod nat (right - left + 1)) < right - left + 1"
    by linarith
  then show ?thesis using assms by (simp add: randint_def)
qed

lemma quickselect_empty_range:
  "right < left \<Longrightarrow> quickselect g arr left right k = Inl ValueError"
  by (simp add: quickselect.simps randint_def)

lemma quickselect_spec:
  assumes "0 \<le> left" "left \<le> right" "right < int (length arr)"
  shows "select_post arr left right k (quickselect g arr left right k)"
  using assms
proof (induction g arr left right k rule: quickselect.induct)
  case (1 g arr left right k)
  show ?case
  proof (cases "left = right")
    case True
    with "1.prems" have "quickselect g arr left right k = Inr (arr ! nat left, arr, g)"
      by (subst quickselect.simps) (simp add: getitem_in_range)
    with True "1.prems" show ?thesis by (simp add: select_post_base)
  next
    case False
    obtain piv g1 where rd: "randint left right g = Inr (piv, g1)" "left \<le> piv" "piv \<le> right"
      using randint_in_range[OF "1.prems"(2)] by blast
    obtain arr1 p where pt: "partition arr left right piv = Inr (arr1, p)"
      and p: "left \<le> p" "p \<le> right"
      and len: "length arr1 = length arr" and ms: "mset arr1 = mset arr"
      and fr: "\<forall>j. int j < left \<or> right < int j \<longrightarrow> arr1 ! j = arr ! j"
      and at: "arr1 ! nat p = arr ! nat piv"
      and lo: "\<forall>j. left \<le> int j \<and> int j < p \<longrightarrow> arr1 ! j < arr ! nat piv"
      and hi: "\<forall>j. p < int j \<and> int j \<le> right \<longrightarrow> arr ! nat piv \<le> arr1 ! j"
      using partition_correct[OF "1.prems" rd(2,3)] by blast
    note step = select_post_step[OF "1.prems" p len ms fr lo[folded at] hi[folded at]]
    show ?thesis
    proof (cases "k = p")
      case True
      have "quickselect g arr left right k = Inr (arr1 ! nat p, arr1, g1)"
        using False rd(1) pt True p "1.prems" len
        by (subst quickselect.simps) (simp add: getitem_in_range)
      with step(1)[of g1] True show ?thesis by simp
    next
      case kp: False
      show ?thesis
      proof (cases "k < p")
        case True
        have eq: "quickselect g arr left right k = quickselect g1 arr1 left (p - 1) k"
          using False rd(1) pt kp True by (subst quickselect.simps) simp
        show ?thesis
        proof (cases "p = left")
          case True
          then have "quickselect g1 arr1 left (p - 1) k = Inl ValueError"
            by (simp add: quickselect_empty_range)
          with eq step(3)[OF \<open>k < p\<close> True] show ?thesis by simp
        next
          case pl: False
          with p have lp: "left < p" by simp
          have "select_post arr1 left (p - 1) k (quickselect g1 arr1 left (p - 1) k)"
            using "1.prems" p lp len
            by (intro "1.IH"(1)[OF False rd(1) _ pt _ kp True]) auto
          with eq step(2)[OF True lp] show ?thesis by simp
        qed
      next
        case nlt: False
        with kp have gt: "p < k" by simp
        have eq: "quickselect g arr left right k = quickselect g1 arr1 (p + 1) right k"
          using False rd(1) pt kp nlt by (subst quickselect.simps) simp
        show ?thesis
        proof (cases "p = right")
          case True
          then have "quickselect g1 arr1 (p + 1) right k = Inl ValueError"
            by (simp add: quickselect_empty_range)
          with eq step(5)[OF gt True] show ?thesis by simp
        next
          case pr: False
          with p have lp: "p < right" by simp
          have "select_post arr1 (p + 1) right k (quickselect g1 arr1 (p + 1) right k)"
            using "1.prems" p lp len
            by (intro "1.IH"(2)[OF False rd(1) _ pt _ kp nlt]) auto
          with eq step(4)[OF gt lp] show ?thesis by simp
        qed
      qed
    qed
  qed
qed

section \<open>The group-median finder and the pivot choice\<close>

lemma write_back_correct:
  assumes "0 \<le> left" "left \<le> i" "i \<le> right + 1" "right < int (length arr)"
    and "length segment = nat (right + 1 - left)"
  shows "\<exists>arr'. write_back arr segment left i right = Inr arr'
           \<and> length arr' = length arr
           \<and> (\<forall>j. arr' ! j = (if i \<le> int j \<and> int j \<le> right then segment ! nat (int j - left) else arr ! j))"
  using assms
proof (induction arr segment left i right rule: write_back.induct)
  case (1 arr segment left i right)
  show ?case
  proof (cases "i < right + 1")
    case False
    with "1.prems" show ?thesis
      by (subst write_back.simps) auto
  next
    case True
    define v where "v = segment ! nat (i - left)"
    define arr1 where "arr1 = arr[nat i := v]"
    have gs: "getitem segment (i - left) = Inr v"
      using "1.prems" True by (simp add: getitem_in_range v_def)
    have st: "setitem arr i v = Inr arr1"
      using "1.prems" True by (simp add: setitem_in_range arr1_def)
    have "\<exists>arr'. write_back arr1 segment left (i + 1) right = Inr arr'
           \<and> length arr' = length arr1
           \<and> (\<forall>j. arr' ! j = (if i + 1 \<le> int j \<and> int j \<le> right then segment ! nat (int j - left) else arr1 ! j))"
      using "1.prems" True
      by (intro "1.IH"[OF True gs st]) (auto simp: arr1_def)
    then obtain arr' where r: "write_back arr1 segment left (i + 1) right = Inr arr'"
      "length arr' = length arr1"
      "\<forall>j. arr' ! j = (if i + 1 \<le> int j \<and> int j \<le> right then segment ! nat (int j - left) else arr1 ! j)"
      by blast
    have "write_back arr segment left i right = Inr arr'"
      using True gs st r(1) by (subst write_back.simps) simp
    moreover have "length arr' = length arr" using r(2) by (simp add: arr1_def)
    moreover have "\<forall>j. arr' ! j = (if i \<le> int j \<and> int j \<le> right then segment ! nat (int j - left) else arr ! j)"
    proof
      fix j
      show "arr' ! j = (if i \<le> int j \<and> int j \<le> right then segment ! nat (int j - left) else arr ! j)"
      proof (cases "int j = i")
        case True
        then have "j = nat i" by simp
        with True "1.prems" \<open>i < right + 1\<close> r(3) show ?thesis
          by (simp add: arr1_def v_def)
      next
        case False
        then have "j \<noteq> nat i" using "1.prems" by auto
        with False r(3) show ?thesis by (auto simp: arr1_def)
      qed
    qed
    ultimately show ?thesis by blast
  qed
qed

lemma find_median_full:
  assumes "0 \<le> left" "left \<le> right" "right < int (length arr)"
  shows "\<exists>arr'. find_median arr left right = Inr (arr', left + (right - left) div 2)
           \<and> arr' = take (nat left) arr @ sort (getslice arr left (right + 1)) @ drop (nat (right + 1)) arr
           \<and> length arr' = length arr
           \<and> (\<forall>j. int j < left \<or> right < int j \<longrightarrow> arr' ! j = arr ! j)"
proof -
  define segment where "segment = sort (getslice arr left (right + 1))"
  have ls: "length segment = nat (right + 1 - left)"
    using assms by (simp add: segment_def length_getslice)
  obtain arr' where w: "write_back arr segment left left right = Inr arr'"
    "length arr' = length arr"
    "\<forall>j. arr' ! j = (if left \<le> int j \<and> int j \<le> right then segment ! nat (int j - left) else arr ! j)"
    using write_back_correct[of left left right arr segment] assms ls by auto
  have "arr' = take (nat left) arr @ segment @ drop (nat (right + 1)) arr"
  proof (rule nth_equalityI)
    show "length arr' = length (take (nat left) arr @ segment @ drop (nat (right + 1)) arr)"
      using assms w(2) ls by simp
  next
    fix j assume j: "j < length arr'"
    consider "int j < left" | "left \<le> int j" "int j \<le> right" | "right < int j" by linarith
    then show "arr' ! j = (take (nat left) arr @ segment @ drop (nat (right + 1)) arr) ! j"
    proof cases
      case 1
      then have "j < nat left" by linarith
      with 1 assms w(3) show ?thesis by (simp add: nth_append)
    next
      case 2
      then have "\<not> j < nat left" "j - nat left < length segment" "nat (int j - left) = j - nat left"
        using assms ls by linarith+
      with 2 assms w(3) show ?thesis by (simp add: nth_append)
    next
      case 3
      then have a: "\<not> j < nat left" "\<not> j - nat left < length segment"
        using assms ls by linarith+
      have "nat (right + 1) + (j - nat left - length segment) = j"
        using 3 assms ls by linarith
      with 3 a assms w(2,3) j show ?thesis by (simp add: nth_append)
    qed
  qed
  moreover have "find_median arr left right = Inr (arr', left + (right - left) div 2)"
    using w(1) by (simp add: find_median_def Let_def segment_def)
  moreover have "\<forall>j. int j < left \<or> right < int j \<longrightarrow> arr' ! j = arr ! j"
    using w(3) by auto
  ultimately show ?thesis using w(2) unfolding segment_def by blast
qed

lemma find_median_props:
  assumes "0 \<le> left" "left \<le> right" "right < int (length arr)"
  shows "\<exists>arr'. find_median arr left right = Inr (arr', left + (right - left) div 2)
           \<and> length arr' = length arr \<and> mset arr' = mset arr
           \<and> (\<forall>j. int j < left \<or> right < int j \<longrightarrow> arr' ! j = arr ! j)
           \<and> getslice arr' left (right + 1) = sort (getslice arr left (right + 1))"
proof -
  define seg where "seg = getslice arr left (right + 1)"
  obtain arr' where f: "find_median arr left right = Inr (arr', left + (right - left) div 2)"
    and arr': "arr' = take (nat left) arr @ sort seg @ drop (nat (right + 1)) arr"
    and len: "length arr' = length arr"
    and fr: "\<forall>j. int j < left \<or> right < int j \<longrightarrow> arr' ! j = arr ! j"
    using find_median_full[OF assms] unfolding seg_def by blast
  have sp: "arr = take (nat left) arr @ seg @ drop (nat (right + 1)) arr"
    unfolding seg_def using assms by (intro list_split3) auto
  have lseg: "length seg = nat (right + 1 - left)"
    using assms by (simp add: seg_def length_getslice)
  have "mset arr' = mset (take (nat left) arr) + mset seg + mset (drop (nat (right + 1)) arr)"
    by (simp add: arr')
  also have "\<dots> = mset (take (nat left) arr @ seg @ drop (nat (right + 1)) arr)"
    by simp
  also have "\<dots> = mset arr" using sp by simp
  finally have ms: "mset arr' = mset arr" .
  have "getslice arr' left (right + 1) = take (nat (right + 1 - left)) (drop (nat left) arr')"
    using assms len by (simp add: getslice_in_range)
  also have "drop (nat left) arr' = sort seg @ drop (nat (right + 1)) arr"
    using assms by (simp add: arr')
  also have "take (nat (right + 1 - left)) (sort seg @ drop (nat (right + 1)) arr) = sort seg"
    using lseg by simp
  finally have gs: "getslice arr' left (right + 1) = sort seg" .
  show ?thesis
    using f len ms fr gs unfolding seg_def by blast
qed

lemma medians_loop_correct:
  assumes "0 \<le> i" "right < int (length arr)"
  shows "\<exists>arr' new. medians_loop arr i right medians = Inr (arr', medians @ new)
           \<and> length arr' = length arr \<and> mset arr' = mset arr
           \<and> (\<forall>j. int j < i \<or> right < int j \<longrightarrow> arr' ! j = arr ! j)
           \<and> (\<forall>m\<in>set new. i \<le> m \<and> m \<le> right)
           \<and> (i \<le> right \<longrightarrow> new \<noteq> [])"
  using assms
proof (induction arr i right medians rule: medians_loop.induct)
  case (1 arr i right medians)
  show ?case
  proof (cases "i < right + 1")
    case False
    then show ?thesis
      by (subst medians_loop.simps) simp
  next
    case True
    define gr where "gr = min (i + 4) right"
    define m where "m = i + (gr - i) div 2"
    have grb: "i \<le> gr" "gr \<le> right" using True by (auto simp: gr_def)
    obtain arr1 where fm: "find_median arr i gr = Inr (arr1, m)"
      and len1: "length arr1 = length arr" and ms1: "mset arr1 = mset arr"
      and fr1: "\<forall>j. int j < i \<or> gr < int j \<longrightarrow> arr1 ! j = arr ! j"
      using find_median_props[of i gr arr] "1.prems" grb unfolding m_def by auto
    have mb: "i \<le> m" "m \<le> right" using grb by (auto simp: m_def)
    have "\<exists>arr' new. medians_loop arr1 (i + 5) right (medians @ [m]) = Inr (arr', (medians @ [m]) @ new)
           \<and> length arr' = length arr1 \<and> mset arr' = mset arr1
           \<and> (\<forall>j. int j < i + 5 \<or> right < int j \<longrightarrow> arr' ! j = arr1 ! j)
           \<and> (\<forall>m\<in>set new. i + 5 \<le> m \<and> m \<le> right)
           \<and> (i + 5 \<le> right \<longrightarrow> new \<noteq> [])"
      using "1.prems" len1
      by (intro "1.IH"[OF True gr_def fm refl]) auto
    then obtain arr' new where r:
      "medians_loop arr1 (i + 5) right (medians @ [m]) = Inr (arr', (medians @ [m]) @ new)"
      "length arr' = length arr1" "mset arr' = mset arr1"
      "\<forall>j. int j < i + 5 \<or> right < int j \<longrightarrow> arr' ! j = arr1 ! j"
      "\<forall>m\<in>set new. i + 5 \<le> m \<and> m \<le> right"
      by blast
    have "medians_loop arr i right medians = Inr (arr', medians @ (m # new))"
      using True fm r(1) by (subst medians_loop.simps) (simp add: gr_def Let_def)
    moreover have "\<forall>j. int j < i \<or> right < int j \<longrightarrow> arr' ! j = arr ! j"
      using r(4) fr1 grb by auto
    moreover have "\<forall>x\<in>set (m # new). i \<le> x \<and> x \<le> right"
      using r(5) mb by auto
    ultimately show ?thesis
      using r(2,3) len1 ms1
      by (intro exI[of _ arr'] exI[of _ "m # new"]) simp
  qed
qed

lemma median_values_correct:
  "\<forall>m\<in>set medians. 0 \<le> m \<and> m < int (length arr) \<Longrightarrow>
     median_values arr medians = Inr (map (\<lambda>m. arr ! nat m) medians)"
  by (induction medians) (simp_all add: getitem_in_range)

lemma find_mom_idx_correct:
  assumes "0 \<le> i" "right < int (length arr)"
  shows "\<exists>m. find_mom_idx arr v i right = Inr m
           \<and> ((m = - 1 \<and> (\<forall>j. i \<le> int j \<and> int j \<le> right \<longrightarrow> arr ! j \<noteq> v))
              \<or> (i \<le> m \<and> m \<le> right \<and> arr ! nat m = v
                  \<and> (\<forall>j. i \<le> int j \<and> int j < m \<longrightarrow> arr ! j \<noteq> v)))"
  using assms
proof (induction arr v i right rule: find_mom_idx.induct)
  case (1 arr v i right)
  show ?case
  proof (cases "i < right + 1")
    case False
    then show ?thesis by (subst find_mom_idx.simps) simp
  next
    case True
    have gi: "getitem arr i = Inr (arr ! nat i)"
      using "1.prems" True by (simp add: getitem_in_range)
    show ?thesis
    proof (cases "arr ! nat i = v")
      case eq: True
      have "find_mom_idx arr v i right = Inr i"
        using True gi eq by (subst find_mom_idx.simps) simp
      with True eq show ?thesis by simp
    next
      case ne: False
      have "\<exists>m. find_mom_idx arr v (i + 1) right = Inr m
           \<and> ((m = - 1 \<and> (\<forall>j. i + 1 \<le> int j \<and> int j \<le> right \<longrightarrow> arr ! j \<noteq> v))
              \<or> (i + 1 \<le> m \<and> m \<le> right \<and> arr ! nat m = v
                  \<and> (\<forall>j. i + 1 \<le> int j \<and> int j < m \<longrightarrow> arr ! j \<noteq> v)))"
        using "1.prems" by (intro "1.IH"[OF True gi ne]) auto
      then obtain m where r: "find_mom_idx arr v (i + 1) right = Inr m"
        "(m = - 1 \<and> (\<forall>j. i + 1 \<le> int j \<and> int j \<le> right \<longrightarrow> arr ! j \<noteq> v))
              \<or> (i + 1 \<le> m \<and> m \<le> right \<and> arr ! nat m = v
                  \<and> (\<forall>j. i + 1 \<le> int j \<and> int j < m \<longrightarrow> arr ! j \<noteq> v))"
        by blast
      have e: "find_mom_idx arr v i right = Inr m"
        using True gi ne r(1) by (subst find_mom_idx.simps) simp
      have step: "arr ! j \<noteq> v" if "int j = i" for j
      proof -
        from that have "j = nat i" by simp
        with ne show ?thesis by simp
      qed
      from r(2) show ?thesis
      proof
        assume a: "m = - 1 \<and> (\<forall>j. i + 1 \<le> int j \<and> int j \<le> right \<longrightarrow> arr ! j \<noteq> v)"
        have "\<forall>j. i \<le> int j \<and> int j \<le> right \<longrightarrow> arr ! j \<noteq> v"
        proof (intro allI impI)
          fix j assume "i \<le> int j \<and> int j \<le> right"
          then show "arr ! j \<noteq> v" using a step[of j] by (cases "int j = i") auto
        qed
        with a e show ?thesis by simp
      next
        assume a: "i + 1 \<le> m \<and> m \<le> right \<and> arr ! nat m = v
                  \<and> (\<forall>j. i + 1 \<le> int j \<and> int j < m \<longrightarrow> arr ! j \<noteq> v)"
        have "\<forall>j. i \<le> int j \<and> int j < m \<longrightarrow> arr ! j \<noteq> v"
        proof (intro allI impI)
          fix j assume "i \<le> int j \<and> int j < m"
          then show "arr ! j \<noteq> v" using a step[of j] by (cases "int j = i") auto
        qed
        with a e show ?thesis by simp
      qed
    qed
  qed
qed

section \<open>Correctness of the deterministic helper\<close>

lemma randomized_select_in_range:
  assumes "0 \<le> k" "k < int (length arr)"
  shows "\<exists>g'. randomized_select g arr k = Inr (sort arr ! nat k, g')"
proof -
  have b: "0 \<le> (0::int)" "0 \<le> int (length arr) - 1" "int (length arr) - 1 < int (length arr)"
    using assms by auto
  have "select_post arr 0 (int (length arr) - 1) k (quickselect g arr 0 (int (length arr) - 1) k)"
    by (rule quickselect_spec[OF b])
  with assms obtain arr' g' where
    "quickselect g arr 0 (int (length arr) - 1) k = Inr (sort arr ! nat k, arr', g')"
    by (cases "quickselect g arr 0 (int (length arr) - 1) k")
       (auto simp: select_post_def clamped_rank_def getslice_whole)
  then show ?thesis by (simp add: randomized_select_def)
qed

lemma median_of_medians_in_range:
  assumes "0 \<le> left" "right < int (length arr)" "medians \<noteq> []"
    and "\<forall>m\<in>set medians. left \<le> m \<and> m \<le> right"
  shows "\<exists>m g'. median_of_medians g arr left right medians = Inr (m, g') \<and> left \<le> m \<and> m \<le> right"
proof (cases "length medians = 1")
  case True
  then have "getitem medians 0 = Inr (medians ! 0)" "medians ! 0 \<in> set medians"
    by (simp_all add: getitem_in_range)
  with True assms(4) show ?thesis
    by (simp add: median_of_medians_def)
next
  case False
  define vs where "vs = map (\<lambda>m. arr ! nat m) medians"
  define k where "k = int (length medians) div 2"
  have mv: "median_values arr medians = Inr vs"
    unfolding vs_def using assms by (intro median_values_correct) auto
  have "0 < int (length medians)" using assms(3) by simp
  then have "int (length medians) div 2 < int (length medians)" by linarith
  then have kb: "0 \<le> k" "k < int (length vs)"
    unfolding k_def vs_def by simp_all
  obtain g1 where rs: "randomized_select g vs k = Inr (sort vs ! nat k, g1)"
    using randomized_select_in_range[OF kb] by blast
  define v where "v = sort vs ! nat k"
  have "nat k < length (sort vs)" using kb by simp
  then have "v \<in> set (sort vs)" unfolding v_def by (rule nth_mem)
  then have "v \<in> set vs" by simp
  then obtain m where m: "m \<in> set medians" "arr ! nat m = v"
    by (auto simp: vs_def)
  with assms have mb: "left \<le> int (nat m)" "int (nat m) \<le> right" by auto
  obtain i where fi: "find_mom_idx arr v left right = Inr i"
    and i: "(i = - 1 \<and> (\<forall>j. left \<le> int j \<and> int j \<le> right \<longrightarrow> arr ! j \<noteq> v))
              \<or> (left \<le> i \<and> i \<le> right \<and> arr ! nat i = v
                  \<and> (\<forall>j. left \<le> int j \<and> int j < i \<longrightarrow> arr ! j \<noteq> v))"
    using find_mom_idx_correct[OF assms(1,2), of v] by blast
  from i m(2) mb have "left \<le> i \<and> i \<le> right" by blast
  moreover have "median_of_medians g arr left right medians = Inr (i, g1)"
    using False mv rs fi by (simp add: median_of_medians_def k_def v_def)
  ultimately show ?thesis by blast
qed

lemma select_empty_range:
  "right < left \<Longrightarrow> select g arr left right k = Inl ValueError"
  by (subst select.simps) (simp add: medians_loop_empty_range median_of_medians_no_medians)

lemma select_spec:
  assumes "0 \<le> left" "left \<le> right" "right < int (length arr)"
  shows "select_post arr left right k (select g arr left right k)"
  using assms
proof (induction g arr left right k rule: select.induct)
  case (1 g arr left right k)
  show ?case
  proof (cases "left = right")
    case True
    with "1.prems" have "select g arr left right k = Inr (arr ! nat left, arr, g)"
      by (subst select.simps) (simp add: getitem_in_range)
    with True "1.prems" show ?thesis by (simp add: select_post_base)
  next
    case False
    obtain arr0 medians where ml: "medians_loop arr left right [] = Inr (arr0, medians)"
      and len0: "length arr0 = length arr" and ms0: "mset arr0 = mset arr"
      and fr0: "\<forall>j. int j < left \<or> right < int j \<longrightarrow> arr0 ! j = arr ! j"
      and med: "\<forall>m\<in>set medians. left \<le> m \<and> m \<le> right" "medians \<noteq> []"
      using medians_loop_correct[OF "1.prems"(1,3), of "[]"] "1.prems"(2) by auto
    obtain mom g1 where mm: "median_of_medians g arr0 left right medians = Inr (mom, g1)"
      and mom: "left \<le> mom" "mom \<le> right"
      using median_of_medians_in_range[of left right arr0 medians g] "1.prems" len0 med by auto
    have b0: "0 \<le> left" "left \<le> right" "right < int (length arr0)"
      using "1.prems" len0 by auto
    obtain arr1 p where pt: "partition_mom arr0 left right mom = Inr (arr1, p)"
      and p: "left \<le> p" "p \<le> right"
      and len1: "length arr1 = length arr0" and ms1: "mset arr1 = mset arr0"
      and fr1: "\<forall>j. int j < left \<or> right < int j \<longrightarrow> arr1 ! j = arr0 ! j"
      and at: "arr1 ! nat p = arr0 ! nat mom"
      and lo: "\<forall>j. left \<le> int j \<and> int j < p \<longrightarrow> arr1 ! j < arr0 ! nat mom"
      and hi: "\<forall>j. p < int j \<and> int j \<le> right \<longrightarrow> arr0 ! nat mom \<le> arr1 ! j"
      using partition_correct[OF b0 mom] unfolding partition_mom_eq by blast
    have len: "length arr1 = length arr" and ms: "mset arr1 = mset arr"
      and fr: "\<forall>j. int j < left \<or> right < int j \<longrightarrow> arr1 ! j = arr ! j"
      using len0 len1 ms0 ms1 fr0 fr1 by auto
    note step = select_post_step[OF "1.prems" p len ms fr lo[folded at] hi[folded at]]
    show ?thesis
    proof (cases "k = p")
      case True
      have "select g arr left right k = Inr (arr1 ! nat p, arr1, g1)"
        using False ml mm pt True p "1.prems" len
        by (subst select.simps) (simp add: getitem_in_range)
      with step(1)[of g1] True show ?thesis by simp
    next
      case kp: False
      show ?thesis
      proof (cases "k < p")
        case True
        have eq: "select g arr left right k = select g1 arr1 left (p - 1) k"
          using False ml mm pt kp True by (subst select.simps) simp
        show ?thesis
        proof (cases "p = left")
          case True
          then have "select g1 arr1 left (p - 1) k = Inl ValueError"
            by (simp add: select_empty_range)
          with eq step(3)[OF \<open>k < p\<close> True] show ?thesis by simp
        next
          case pl: False
          with p have lp: "left < p" by simp
          have "select_post arr1 left (p - 1) k (select g1 arr1 left (p - 1) k)"
            using "1.prems" p lp len
            by (intro "1.IH"(1)[OF False ml _ mm _ pt _ kp True]) auto
          with eq step(2)[OF True lp] show ?thesis by simp
        qed
      next
        case nlt: False
        with kp have gt: "p < k" by simp
        have eq: "select g arr left right k = select g1 arr1 (p + 1) right k"
          using False ml mm pt kp nlt by (subst select.simps) simp
        show ?thesis
        proof (cases "p = right")
          case True
          then have "select g1 arr1 (p + 1) right k = Inl ValueError"
            by (simp add: select_empty_range)
          with eq step(5)[OF gt True] show ?thesis by simp
        next
          case pr: False
          with p have lp: "p < right" by simp
          have "select_post arr1 (p + 1) right k (select g1 arr1 (p + 1) right k)"
            using "1.prems" p lp len
            by (intro "1.IH"(2)[OF False ml _ mm _ pt _ kp nlt]) auto
          with eq step(4)[OF gt lp] show ?thesis by simp
        qed
      qed
    qed
  qed
qed


section \<open>Extremes of a sorted list and the store frame\<close>






lemma randomized_select_call_frame:
  "take (length s) (snd (randomized_select_call g s a k)) = s"
  by (simp add: randomized_select_call_def list_copy_def split: sum.splits prod.splits)

lemma deterministic_select_call_frame:
  "take (length s) (snd (deterministic_select_call g s a k)) = s"
  by (simp add: deterministic_select_call_def list_copy_def split: sum.splits prod.splits)

lemma randomized_select_call_result:
  "fst (randomized_select_call g s a k) = randomized_select g (s ! a) k"
  by (simp add: randomized_select_call_def randomized_select_def list_copy_def
      split: sum.splits prod.splits)

lemma deterministic_select_call_result:
  "fst (deterministic_select_call g s a k) = deterministic_select g (s ! a) k"
  by (simp add: deterministic_select_call_def deterministic_select_def list_copy_def
      split: sum.splits prod.splits)

section \<open>Functional correctness of both selectors\<close>



section \<open>Output determinism and agreement\<close>



section \<open>The partition guarantee\<close>

text \<open>
  C4. For a range \<open>[left, right]\<close> inside the working list and a pivot index in the range,
  \<^verbatim>\<open>partition\<close> (and its copy \<^verbatim>\<open>partition_mom\<close>) returns a store index in the range;
  in the range, every element at an index below the store index is strictly less than
  the pivot value, every element at an index above it is greater than or equal to the
  pivot value, and the store index holds the pivot value. The pivot value is the element
  at the pivot index before the call.
\<close>

theorem partition_guarantee:
  assumes "0 \<le> left" "left \<le> right" "right < int (length arr)"
    and "left \<le> pivot_idx" "pivot_idx \<le> right"
  shows "\<exists>arr' store_idx.
           partition arr left right pivot_idx = Inr (arr', store_idx)
         \<and> partition_mom arr left right pivot_idx = Inr (arr', store_idx)
         \<and> left \<le> store_idx \<and> store_idx \<le> right
         \<and> arr' ! nat store_idx = arr ! nat pivot_idx
         \<and> (\<forall>j. left \<le> int j \<and> int j < store_idx \<longrightarrow> arr' ! j < arr ! nat pivot_idx)
         \<and> (\<forall>j. store_idx < int j \<and> int j \<le> right \<longrightarrow> arr ! nat pivot_idx \<le> arr' ! j)"
  using partition_correct[OF assms] unfolding partition_mom_eq by blast

theorem partition_guarantee_witness:
  "\<exists>arr' store_idx.
           partition [5, 3, 8, 1, 9, 2] 0 5 0 = Inr (arr', store_idx)
         \<and> partition_mom [5, 3, 8, 1, 9, 2] 0 5 0 = Inr (arr', store_idx)
         \<and> 0 \<le> store_idx \<and> store_idx \<le> 5
         \<and> arr' ! nat store_idx = 5
         \<and> (\<forall>j. 0 \<le> int j \<and> int j < store_idx \<longrightarrow> arr' ! j < 5)
         \<and> (\<forall>j. store_idx < int j \<and> int j \<le> 5 \<longrightarrow> 5 \<le> arr' ! j)"
  using partition_guarantee[of 0 5 "[5, 3, 8, 1, 9, 2]" 0]
  by simp

section \<open>The group-median finder\<close>

text \<open>
  C7. For a range \<open>[left, right]\<close> inside the working list (of any size, so in particular
  with \<open>right - left \<le> 4\<close>), \<^verbatim>\<open>find_median\<close> replaces exactly the positions
  \<open>left..right\<close> by their values in ascending order, leaves every other position as it
  was, and returns \<open>left + (right - left) div 2\<close>: the lower of the two middle positions
  when the group has an even number of elements.
\<close>

theorem find_median_sorts_range:
  assumes "0 \<le> left" "left \<le> right" "right < int (length arr)"
  shows "\<exists>arr'. find_median arr left right = Inr (arr', left + (right - left) div 2)
           \<and> arr' = take (nat left) arr @ sort (getslice arr left (right + 1)) @ drop (nat (right + 1)) arr
           \<and> getslice arr' left (right + 1) = sort (getslice arr left (right + 1))
           \<and> length arr' = length arr
           \<and> (\<forall>j. int j < left \<or> right < int j \<longrightarrow> arr' ! j = arr ! j)"
proof -
  obtain arr' where a: "find_median arr left right = Inr (arr', left + (right - left) div 2)"
    "arr' = take (nat left) arr @ sort (getslice arr left (right + 1)) @ drop (nat (right + 1)) arr"
    "length arr' = length arr"
    "\<forall>j. int j < left \<or> right < int j \<longrightarrow> arr' ! j = arr ! j"
    using find_median_full[OF assms] by blast
  obtain arr'' where b: "find_median arr left right = Inr (arr'', left + (right - left) div 2)"
    "getslice arr'' left (right + 1) = sort (getslice arr left (right + 1))"
    using find_median_props[OF assms] by blast
  from a(1) b(1) have "arr'' = arr'" by simp
  with a b show ?thesis by blast
qed

theorem find_median_sorts_range_witness:
  "find_median [9, 4, 2, 8, 6, 1, 7] 1 4 = Inr ([9, 2, 4, 6, 8, 1, 7], 2)"
  using find_median_sorts_range[of 1 4 "[9, 4, 2, 8, 6, 1, 7]"]
  by (simp add: getslice_def slice_bound_def)

section \<open>Empty input\<close>

text \<open>
  C3, as the code has it. Neither selector checks for an empty list and there is no
  \<^verbatim>\<open>EmptyInput\<close> error. On the empty list the first helper call is on the range
  \<open>[0, -1]\<close>: \<^verbatim>\<open>quickselect\<close> draws \<^verbatim>\<open>random.randint(0, -1)\<close>, which raises
  \<^verbatim>\<open>ValueError\<close>; \<^verbatim>\<open>select\<close> collects no median and calls the randomized selector on
  the empty list of medians, which raises the same \<^verbatim>\<open>ValueError\<close>. So both selectors
  fail for every rank and every state of the random source, before any partition step,
  with the error that a rank out of range can produce on a non-empty list.
\<close>

theorem empty_input_raises_value_error:
  "randomized_select g [] k = Inl ValueError \<and> deterministic_select g [] k = Inl ValueError"
  by (simp add: randomized_select_def deterministic_select_def quickselect_empty_range
      select_empty_range)

text \<open>
  The claim as the specification states it fails at the empty list with rank \<open>0\<close>: what
  both selectors report there is the \<^verbatim>\<open>ValueError\<close> of the random draw, the very
  error they report for the non-empty list \<^verbatim>\<open>[1, 2]\<close> with rank \<open>-1\<close>. It is not an
  error kind of the empty input.
\<close>

theorem empty_input_error_not_specific:
  "randomized_select (sconst 0) [] 0 = Inl ValueError
   \<and> deterministic_select (sconst 0) [] 0 = Inl ValueError
   \<and> randomized_select (sconst 0) [1, 2] (- 1) = Inl ValueError
   \<and> deterministic_select (sconst 0) [1, 2] (- 1) = Inl ValueError"
  by (simp add: randomized_select_def quickselect.simps randint_def partition_def
      partition_loop.simps getitem_def setitem_def swap_items_def
      deterministic_select_def select.simps medians_loop.simps find_median_def
      write_back.simps getslice_def slice_bound_def median_of_medians_def
      find_mom_idx.simps partition_mom_def)

section \<open>Ranks out of range\<close>




section \<open>The caller's list is not mutated\<close>

text \<open>
  C5. Whatever the rank and the random source, and whether the call returns or raises,
  after \<^verbatim>\<open>randomized_select(arr, k)\<close> or \<^verbatim>\<open>deterministic_select(arr, k)\<close> the caller's
  list object, like every list object that existed before the call, holds the values it
  held before: the only object written is the copy the call allocated. The value or
  error of the call is that of the selector on the caller's values.
\<close>

theorem caller_list_unchanged:
  assumes "a < length s"
  shows "snd (randomized_select_call g s a k) ! a = s ! a
       \<and> snd (deterministic_select_call g s a k) ! a = s ! a
       \<and> take (length s) (snd (randomized_select_call g s a k)) = s
       \<and> take (length s) (snd (deterministic_select_call g s a k)) = s
       \<and> fst (randomized_select_call g s a k) = randomized_select g (s ! a) k
       \<and> fst (deterministic_select_call g s a k) = deterministic_select g (s ! a) k"
proof -
  have "snd (randomized_select_call g s a k) ! a
          = take (length s) (snd (randomized_select_call g s a k)) ! a"
    using assms by simp
  then have r: "snd (randomized_select_call g s a k) ! a = s ! a"
    by (simp only: randomized_select_call_frame)
  have "snd (deterministic_select_call g s a k) ! a
          = take (length s) (snd (deterministic_select_call g s a k)) ! a"
    using assms by simp
  then have d: "snd (deterministic_select_call g s a k) ! a = s ! a"
    by (simp only: deterministic_select_call_frame)
  from r d show ?thesis
    by (simp add: randomized_select_call_frame deterministic_select_call_frame
        randomized_select_call_result deterministic_select_call_result)
qed

theorem caller_list_unchanged_witness:
  "snd (randomized_select_call (sconst 1) [[5, 3, 8, 1, 9, 2]] 0 2) ! 0 = [5, 3, 8, 1, 9, 2]
   \<and> snd (deterministic_select_call (sconst 1) [[5, 3, 8, 1, 9, 2]] 0 2) ! 0 = [5, 3, 8, 1, 9, 2]
   \<and> snd (randomized_select_call (sconst 0) [[1, 2]] 0 (- 1)) ! 0 = [1, 2]
   \<and> fst (randomized_select_call (sconst 0) [[1, 2]] 0 (- 1)) = Inl ValueError"
proof -
  have e: "randomized_select (sconst 0) [1, 2] (- 1) = Inl ValueError"
    by (simp add: randomized_select_def quickselect.simps randint_def partition_def
      partition_loop.simps getitem_def setitem_def swap_items_def)
  from caller_list_unchanged[of 0 "[[5, 3, 8, 1, 9, 2]]" "sconst 1" 2]
    caller_list_unchanged[of 0 "[[1, 2]]" "sconst 0" "- 1"] e
  show ?thesis by simp
qed

section \<open>The median of the group medians\<close>



section \<open>The working copy stays a permutation\<close>

text \<open>
  C9. On a range \<open>[left, right]\<close> inside the working list, each mutation step (the
  partition with a pivot index in the range, in both copies, and the group-median
  sort-and-write-back) returns a list of the same length that is a permutation of the
  list it was given and agrees with it at every index outside \<open>[left, right]\<close>. So the
  working list a top-level call ends with is a permutation of the input, for any rank.
\<close>

theorem mutation_steps_permute_inside_range:
  assumes "0 \<le> left" "left \<le> right" "right < int (length arr)"
    and "left \<le> pivot_idx" "pivot_idx \<le> right"
  shows "(\<exists>arr' p. partition arr left right pivot_idx = Inr (arr', p)
            \<and> partition_mom arr left right pivot_idx = Inr (arr', p)
            \<and> length arr' = length arr \<and> mset arr' = mset arr
            \<and> (\<forall>j. int j < left \<or> right < int j \<longrightarrow> arr' ! j = arr ! j))
       \<and> (\<exists>arr' m. find_median arr left right = Inr (arr', m)
            \<and> length arr' = length arr \<and> mset arr' = mset arr
            \<and> (\<forall>j. int j < left \<or> right < int j \<longrightarrow> arr' ! j = arr ! j))
       \<and> (\<forall>v arr' g'. quickselect g arr 0 (int (length arr) - 1) k = Inr (v, arr', g')
            \<longrightarrow> length arr' = length arr \<and> mset arr' = mset arr)
       \<and> (\<forall>v arr' g'. select g arr 0 (int (length arr) - 1) k = Inr (v, arr', g')
            \<longrightarrow> length arr' = length arr \<and> mset arr' = mset arr)"
proof -
  have p: "\<exists>arr' p. partition arr left right pivot_idx = Inr (arr', p)
            \<and> partition_mom arr left right pivot_idx = Inr (arr', p)
            \<and> length arr' = length arr \<and> mset arr' = mset arr
            \<and> (\<forall>j. int j < left \<or> right < int j \<longrightarrow> arr' ! j = arr ! j)"
    using partition_correct[OF assms] unfolding partition_mom_eq by blast
  have f: "\<exists>arr' m. find_median arr left right = Inr (arr', m)
            \<and> length arr' = length arr \<and> mset arr' = mset arr
            \<and> (\<forall>j. int j < left \<or> right < int j \<longrightarrow> arr' ! j = arr ! j)"
    using find_median_props[OF assms(1-3)] by blast
  have b: "0 \<le> (0::int)" "0 \<le> int (length arr) - 1" "int (length arr) - 1 < int (length arr)"
    using assms(1-3) by auto
  have q: "\<forall>v arr' g'. quickselect g arr 0 (int (length arr) - 1) k = Inr (v, arr', g')
            \<longrightarrow> length arr' = length arr \<and> mset arr' = mset arr"
    using quickselect_spec[OF b, of k g] by (auto simp: select_post_def)
  have s: "\<forall>v arr' g'. select g arr 0 (int (length arr) - 1) k = Inr (v, arr', g')
            \<longrightarrow> length arr' = length arr \<and> mset arr' = mset arr"
    using select_spec[OF b, of k g] by (auto simp: select_post_def)
  from p f q s show ?thesis by blast
qed

theorem mutation_steps_permute_inside_range_witness:
  "(\<exists>arr' p. partition [9, 5, 3, 8, 1, 7] 1 4 2 = Inr (arr', p)
            \<and> partition_mom [9, 5, 3, 8, 1, 7] 1 4 2 = Inr (arr', p)
            \<and> mset arr' = mset [9, 5, 3, 8, 1, 7] \<and> arr' ! 0 = 9 \<and> arr' ! 5 = 7)
   \<and> (\<exists>arr' m. find_median [9, 5, 3, 8, 1, 7] 1 4 = Inr (arr', m)
            \<and> mset arr' = mset [9, 5, 3, 8, 1, 7] \<and> arr' ! 0 = 9 \<and> arr' ! 5 = 7)"
proof -
  define A :: "int list" where "A = [9, 5, 3, 8, 1, 7]"
  have b: "(0::int) \<le> 1" "(1::int) \<le> 4" "4 < int (length A)" "(1::int) \<le> 2" "(2::int) \<le> 4"
    by (simp_all add: A_def)
  note t = mutation_steps_permute_inside_range[OF b, of "sconst 0" 0]
  from t obtain arr' p where P: "partition A 1 4 2 = Inr (arr', p)"
    "partition_mom A 1 4 2 = Inr (arr', p)" "mset arr' = mset A"
    "\<forall>j. int j < 1 \<or> 4 < int j \<longrightarrow> arr' ! j = A ! j"
    by blast
  from P(4)[rule_format, of 0] P(4)[rule_format, of 5]
  have P': "arr' ! 0 = 9" "arr' ! 5 = 7" by (simp_all add: A_def)
  from t obtain arr'' m where F: "find_median A 1 4 = Inr (arr'', m)" "mset arr'' = mset A"
    "\<forall>j. int j < 1 \<or> 4 < int j \<longrightarrow> arr'' ! j = A ! j"
    by blast
  from F(3)[rule_format, of 0] F(3)[rule_format, of 5]
  have F': "arr'' ! 0 = 9" "arr'' ! 5 = 7" by (simp_all add: A_def)
  from P(1-3) P' F(1,2) F' show ?thesis
    unfolding A_def by blast
qed

section \<open>Single-element input\<close>

text \<open>
  C10. On a one-element list both selectors return the element for every integer rank,
  in range or not, and never raise: the first helper call has \<^verbatim>\<open>left == right\<close> and
  returns \<^verbatim>\<open>arr_copy[left]\<close> without looking at the rank. No random draw is made.
\<close>

theorem single_element_any_rank:
  "randomized_select g [x] k = Inr (x, g) \<and> deterministic_select g [x] k = Inr (x, g)"
  by (simp add: randomized_select_def deterministic_select_def quickselect.simps
      select.simps getitem_def)

end
